theory Spec2Isabelle
  imports Main
begin

text \<open>
  A shallow embedding of \<^verbatim>\<open>json.go\<close> of the package \<^verbatim>\<open>safehtml\<close>: the type
  \<^verbatim>\<open>JSON\<close>, its constructors, its concatenation and its accessor.  Go strings are
  byte sequences and are modelled by \<^typ>\<open>string\<close>, a list of 8-bit characters; a byte is
  read as a number with \<^const>\<open>of_char\<close> and written with \<^const>\<open>char_of\<close>.
\<close>

section \<open>UTF-8 decoding and encoding (Go's \<^verbatim>\<open>unicode/utf8\<close>)\<close>

text \<open>
  \<^verbatim>\<open>utf8.DecodeRuneInString\<close> returns the first code point of a string and the number
  of bytes it takes; a byte that starts no well-formed sequence gives
  \<^verbatim>\<open>(RuneError, 1)\<close>.  \<open>first\<close> is Go's table of lead bytes: for a lead byte of a
  multi-byte sequence it gives the length of the sequence and the range the second byte
  must lie in.  The masks and shifts of the Go code are written as \<open>mod\<close> and
  multiplication.
\<close>

definition RuneError :: nat where
  "RuneError = 0xFFFD"

definition first :: "nat \<Rightarrow> (nat \<times> nat \<times> nat) option" where
  "first b =
    (if b < 0xC2 then None
     else if b \<le> 0xDF then Some (2, 0x80, 0xBF)
     else if b = 0xE0 then Some (3, 0xA0, 0xBF)
     else if b \<le> 0xEC then Some (3, 0x80, 0xBF)
     else if b = 0xED then Some (3, 0x80, 0x9F)
     else if b \<le> 0xEF then Some (3, 0x80, 0xBF)
     else if b = 0xF0 then Some (4, 0x90, 0xBF)
     else if b \<le> 0xF3 then Some (4, 0x80, 0xBF)
     else if b = 0xF4 then Some (4, 0x80, 0x8F)
     else None)"

definition cont :: "nat \<Rightarrow> bool" where
  "cont b = (0x80 \<le> b \<and> b \<le> 0xBF)"

definition byte_at :: "string \<Rightarrow> nat \<Rightarrow> nat" where
  "byte_at s i = of_char (s ! i)"

definition DecodeRuneInString :: "string \<Rightarrow> nat \<times> nat" where
  "DecodeRuneInString s =
    (if length s < 1 then (RuneError, 0)
     else let s0 = byte_at s 0 in
     if s0 < 0x80 then (s0, 1)
     else case first s0 of
       None \<Rightarrow> (RuneError, 1)
     | Some (sz, lo, hi) \<Rightarrow>
        if length s < sz then (RuneError, 1)
        else let s1 = byte_at s 1 in
          if s1 < lo \<or> hi < s1 then (RuneError, 1)
          else if sz \<le> 2 then ((s0 mod 32) * 64 + s1 mod 64, 2)
          else let s2 = byte_at s 2 in
            if \<not> cont s2 then (RuneError, 1)
            else if sz \<le> 3 then ((s0 mod 16) * 4096 + (s1 mod 64) * 64 + s2 mod 64, 3)
            else let s3 = byte_at s 3 in
              if \<not> cont s3 then (RuneError, 1)
              else ((s0 mod 8) * 262144 + (s1 mod 64) * 4096 + (s2 mod 64) * 64 + s3 mod 64, 4))"


lemma first_size: "first b = Some (sz, lo, hi) \<Longrightarrow> 2 \<le> sz \<and> sz \<le> 4"
  unfolding first_def by (simp split: if_splits)

lemma DecodeRuneInString_size:
  assumes "s \<noteq> []"
  shows "1 \<le> snd (DecodeRuneInString s) \<and> snd (DecodeRuneInString s) \<le> length s"
proof (cases "first (byte_at s 0)")
  case None
  with assms show ?thesis
    by (cases s) (simp_all add: DecodeRuneInString_def Let_def)
next
  case (Some t)
  obtain sz lo hi where t: "t = (sz, lo, hi)" by (cases t)
  from first_size Some t have "2 \<le> sz" "sz \<le> 4" by blast+
  with assms Some t show ?thesis
    by (cases s) (auto simp: DecodeRuneInString_def Let_def Suc_le_eq)
qed

text \<open>
  \<^verbatim>\<open>for _, rune := range s\<close>: the code points of a string in order, each step
  advancing by the width \<^verbatim>\<open>DecodeRuneInString\<close> reports.
\<close>

function range_string :: "string \<Rightarrow> nat list" where
  "range_string s =
    (if s = [] then []
     else fst (DecodeRuneInString s) # range_string (drop (snd (DecodeRuneInString s)) s))"
  by pat_completeness auto
termination
proof (relation "measure length")
  fix s :: string
  assume "s \<noteq> []"
  with DecodeRuneInString_size [of s]
  show "(drop (snd (DecodeRuneInString s)) s, s) \<in> measure length"
    by (cases s) auto
qed simp

declare range_string.simps [simp del]

text \<open>
  \<^verbatim>\<open>utf8.EncodeRune\<close>, which the conversion \<^verbatim>\<open>string(runes)\<close> applies to every
  rune: surrogates and values above \<^verbatim>\<open>MaxRune\<close> are encoded as \<^verbatim>\<open>RuneError\<close>.
\<close>

definition MaxRune :: nat where
  "MaxRune = 0x10FFFF"

definition EncodeRune3 :: "nat \<Rightarrow> string" where
  "EncodeRune3 r =
    [char_of (0xE0 + r div 4096), char_of (0x80 + (r div 64) mod 64), char_of (0x80 + r mod 64)]"

definition EncodeRune :: "nat \<Rightarrow> string" where
  "EncodeRune r =
    (if r \<le> 0x7F then [char_of r]
     else if r \<le> 0x7FF then [char_of (0xC0 + r div 64), char_of (0x80 + r mod 64)]
     else if MaxRune < r \<or> (0xD800 \<le> r \<and> r \<le> 0xDFFF) then EncodeRune3 RuneError
     else if r \<le> 0xFFFF then EncodeRune3 r
     else [char_of (0xF0 + r div 262144), char_of (0x80 + (r div 4096) mod 64),
           char_of (0x80 + (r div 64) mod 64), char_of (0x80 + r mod 64)])"

section \<open>Coercion to interchange-valid UTF-8\<close>

text \<open>
  Modelled from the spec: \<^verbatim>\<open>coerceToUTF8InterchangeValid\<close> is a function of the package
  that is declared outside \<^verbatim>\<open>json.go\<close>.  The spec describes it as a coercion step
  that never fails and ``guarantees the result is valid, interchange-safe UTF-8
  (replacing or stripping invalid sequences per a defined policy)''; the comment of
  \<^verbatim>\<open>JSONEscaped\<close> adds that the result ``contains only valid UTF-8 characters which are
  legal in JSON and XML''.  The policy modelled here is the package's: the string is read
  code point by code point, every byte that is not part of a well-formed sequence reads as
  U+FFFD, every control character other than TAB, LF, FF and CR and every Unicode
  noncharacter is replaced by U+FFFD, and the code points are encoded again.
\<close>

definition controlChar :: "nat \<Rightarrow> bool" where
  "controlChar r = (r \<le> 0x08 \<or> r = 0x0B \<or> (0x0E \<le> r \<and> r \<le> 0x1F) \<or> (0x7F \<le> r \<and> r \<le> 0x9F))"

definition Noncharacter_Code_Point :: "nat \<Rightarrow> bool" where
  "Noncharacter_Code_Point r =
    ((0xFDD0 \<le> r \<and> r \<le> 0xFDEF) \<or> (r \<le> 0x10FFFF \<and> 0xFFFE \<le> r mod 0x10000))"

definition controlAndNonCharacter :: "nat \<Rightarrow> bool" where
  "controlAndNonCharacter r = (Noncharacter_Code_Point r \<or> controlChar r)"

definition coerceToUTF8InterchangeValid :: "string \<Rightarrow> string" where
  "coerceToUTF8InterchangeValid s =
    concat (map EncodeRune
      (map (\<lambda>r. if controlAndNonCharacter r then RuneError else r) (range_string s)))"

section \<open>The JSON value type of json.go\<close>

text \<open>
  \<^verbatim>\<open>type JSON struct { str string }\<close>: a struct wrapping one Go string.  A Go
  string is a sequence of bytes, which is what \<^typ>\<open>string\<close> (a list of 8-bit
  characters) is.  The zero value of the struct wraps the empty string.
\<close>

record JSON =
  str :: string

definition zeroJSON :: JSON where
  "zeroJSON = \<lparr>str = []\<rparr>"

text \<open>
  \<^verbatim>\<open>stringConstant\<close> is declared elsewhere in the package as a string type that only
  untyped string constants convert to; at run time it is a string.
\<close>

type_synonym stringConstant = string

text \<open>\<^verbatim>\<open>func (h JSON) String() string { return h.str }\<close>\<close>

definition String :: "JSON \<Rightarrow> string" where
  "String h = str h"

text \<open>\<^verbatim>\<open>func JSONFromConstant(str stringConstant) JSON { return JSON{str: string(str)} }\<close>\<close>

definition JSONFromConstant :: "stringConstant \<Rightarrow> JSON" where
  "JSONFromConstant s = \<lparr>str = s\<rparr>"

text \<open>\<^verbatim>\<open>func EmptyObjectJSON() JSON { return JSON{"{}"} }\<close>\<close>

definition EmptyObjectJSON :: JSON where
  "EmptyObjectJSON = \<lparr>str = ''{}''\<rparr>"

text \<open>\<^verbatim>\<open>func EmptyArrayJSON() JSON { return JSON{"[]"} }\<close>\<close>

definition EmptyArrayJSON :: JSON where
  "EmptyArrayJSON = \<lparr>str = ''[]''\<rparr>"

text \<open>
  \<^verbatim>\<open>func JSONEscaped(text string) JSON { return JSON{coerceToUTF8InterchangeValid(text)} }\<close>
  The call of \<^verbatim>\<open>escapeAndCoerceToInterchangeValid\<close> that follows the return
  statement in the source is commented out.
\<close>

definition JSONEscaped :: "string \<Rightarrow> JSON" where
  "JSONEscaped text = \<lparr>str = coerceToUTF8InterchangeValid text\<rparr>"

text \<open>
  \<^verbatim>\<open>
  func JSONConcat(jsons ...JSON) JSON {
      var b bytes.Buffer
      for _, json := range jsons { b.WriteString(json.String()) }
      return JSON{b.String()}
  }\<close>
  The buffer is the accumulator of the loop; \<^verbatim>\<open>WriteString\<close> appends to it.
\<close>

fun JSONConcat_loop :: "string \<Rightarrow> JSON list \<Rightarrow> string" where
  "JSONConcat_loop b [] = b"
| "JSONConcat_loop b (j # jsons) = JSONConcat_loop (b @ String j) jsons"

definition JSONConcat :: "JSON list \<Rightarrow> JSON" where
  "JSONConcat jsons = \<lparr>str = JSONConcat_loop [] jsons\<rparr>"

section \<open>Well-formed UTF-8\<close>

text \<open>
  The well-formed UTF-8 byte sequences of the Unicode standard (table 3-7): one byte
  up to 7F; C2..DF and one continuation byte; E0..EF and two, where E0 needs A0..BF
  and ED needs 80..9F as the second byte (no overlong forms, no surrogates); F0..F4 and
  three, where F0 needs 90..BF and F4 needs 80..8F as the second byte (nothing above
  U+10FFFF).  A string is well formed when it is a sequence of such sequences.
\<close>

definition in_range :: "nat \<Rightarrow> nat \<Rightarrow> char \<Rightarrow> bool" where
  "in_range lo hi c = (lo \<le> of_char c \<and> (of_char c :: nat) \<le> hi)"

fun wellformed_utf8 :: "string \<Rightarrow> bool" where
  "wellformed_utf8 [] = True"
| "wellformed_utf8 (c # s) =
    (let a = of_char c :: nat in
     if a \<le> 0x7F then wellformed_utf8 s
     else if 0xC2 \<le> a \<and> a \<le> 0xDF then
       1 \<le> length s \<and> in_range 0x80 0xBF (s ! 0) \<and> wellformed_utf8 (drop 1 s)
     else if 0xE0 \<le> a \<and> a \<le> 0xEF then
       2 \<le> length s
       \<and> in_range (if a = 0xE0 then 0xA0 else 0x80) (if a = 0xED then 0x9F else 0xBF) (s ! 0)
       \<and> in_range 0x80 0xBF (s ! 1) \<and> wellformed_utf8 (drop 2 s)
     else if 0xF0 \<le> a \<and> a \<le> 0xF4 then
       3 \<le> length s
       \<and> in_range (if a = 0xF0 then 0x90 else 0x80) (if a = 0xF4 then 0x8F else 0xBF) (s ! 0)
       \<and> in_range 0x80 0xBF (s ! 1) \<and> in_range 0x80 0xBF (s ! 2)
       \<and> wellformed_utf8 (drop 3 s)
     else False)"


text \<open>
  The characters that \<^verbatim>\<open>HTMLEscaped\<close> escapes, and the two that are significant
  inside a JSON string: \<^verbatim>\<open>&\<close>, \<^verbatim>\<open><\<close>, \<^verbatim>\<open>>\<close>, the double quote, the
  apostrophe and the backslash.
\<close>

definition escapable :: "char \<Rightarrow> bool" where
  "escapable c = (c \<in> set [CHR ''&'', CHR ''<'', CHR ''>'', CHR 0x22, CHR 0x27, CHR 0x5C])"

section \<open>Properties of the encoder and the decoder\<close>

lemma div4096_0: "(0x800::nat) \<le> r \<Longrightarrow> r div 4096 = 0 \<Longrightarrow> 32 \<le> (r div 64) mod 64"
proof -
  assume a: "0x800 \<le> r" "r div 4096 = 0"
  then have "r < 4096" by (simp add: div_eq_0_iff)
  then have "r div 64 < 64" by simp
  moreover from a have "32 \<le> r div 64" by simp
  ultimately show ?thesis by simp
qed

lemma div4096_13: "r < (0xD800::nat) \<Longrightarrow> r div 4096 = 13 \<Longrightarrow> (r div 64) mod 64 \<le> 31"
proof -
  assume a: "r < 0xD800" "r div 4096 = 13"
  have "r div 4096 = (r div 64) div 64" by (simp add: div_mult2_eq)
  with a have d: "r div 64 div 64 = 13" by simp
  from a have "r div 64 \<le> 863" by simp
  then show ?thesis by (simp add: modulo_nat_def d)
qed

lemma div262144_0: "(0xFFFF::nat) < r \<Longrightarrow> r div 262144 = 0 \<Longrightarrow> 16 \<le> (r div 4096) mod 64"
proof -
  assume a: "0xFFFF < r" "r div 262144 = 0"
  then have "r < 262144" by (simp add: div_eq_0_iff)
  then have "r div 4096 < 64" by simp
  moreover from a have "16 \<le> r div 4096" by simp
  ultimately show ?thesis by simp
qed

lemma div262144_4: "r \<le> (0x10FFFF::nat) \<Longrightarrow> r div 262144 = 4 \<Longrightarrow> (r div 4096) mod 64 \<le> 15"
proof -
  assume a: "r \<le> 0x10FFFF" "r div 262144 = 4"
  have "r div 262144 = (r div 4096) div 64" by (simp add: div_mult2_eq)
  with a have d: "r div 4096 div 64 = 4" by simp
  from a have "r div 4096 \<le> 271" by simp
  then show ?thesis by (simp add: modulo_nat_def d)
qed

lemma wellformed_EncodeRune3:
  assumes "0x800 \<le> r" "r \<le> 0xFFFF" "\<not> (0xD800 \<le> r \<and> r \<le> 0xDFFF)"
  shows "wellformed_utf8 (EncodeRune3 r @ t) = wellformed_utf8 t"
proof -
  have a: "r div 4096 \<le> 15" "(r div 64) mod 64 \<le> 63" "r mod 64 \<le> 63"
    using assms by simp_all
  have b: "r div 4096 = 0 \<Longrightarrow> 32 \<le> (r div 64) mod 64"
    using assms div4096_0 by simp
  have c: "r div 4096 = 13 \<Longrightarrow> (r div 64) mod 64 \<le> 31"
  proof -
    assume d: "r div 4096 = 13"
    then have "r < 0xE000" by simp
    with assms have "r < 0xD800" by simp
    with d show ?thesis using div4096_13 by blast
  qed
  have d: "r div 4096 = 0 \<Longrightarrow> r div 64 \<le> 63"
  proof -
    assume "r div 4096 = 0"
    then have "r < 4096" by (simp add: div_eq_0_iff)
    then show ?thesis by simp
  qed
  show ?thesis
    using a b c d by (simp add: EncodeRune3_def in_range_def Let_def)
qed

lemma wellformed_EncodeRune [simp]:
  "wellformed_utf8 (EncodeRune r @ t) = wellformed_utf8 t"
proof -
  consider "r \<le> 0x7F" | "0x7F < r" "r \<le> 0x7FF"
    | "0x7FF < r" "MaxRune < r \<or> (0xD800 \<le> r \<and> r \<le> 0xDFFF)"
    | "0x7FF < r" "r \<le> 0xFFFF" "\<not> (0xD800 \<le> r \<and> r \<le> 0xDFFF)"
    | "0xFFFF < r" "r \<le> MaxRune"
    unfolding MaxRune_def by linarith
  then show ?thesis
  proof cases
    case 1
    then show ?thesis by (simp add: EncodeRune_def)
  next
    case 2
    then have "2 \<le> r div 64" "r div 64 \<le> 31" "r mod 64 \<le> 63" by simp_all
    with 2 show ?thesis by (simp add: EncodeRune_def in_range_def Let_def)
  next
    case 3
    then have "EncodeRune r = EncodeRune3 RuneError"
      by (auto simp: EncodeRune_def)
    then show ?thesis
      using wellformed_EncodeRune3 [of RuneError t] by (simp add: RuneError_def)
  next
    case 4
    then have "EncodeRune r = EncodeRune3 r"
      by (auto simp: EncodeRune_def MaxRune_def)
    with 4 show ?thesis
      using wellformed_EncodeRune3 [of r t] by simp
  next
    case 5
    then have a: "r div 262144 \<le> 4" "(r div 4096) mod 64 \<le> 63"
      "(r div 64) mod 64 \<le> 63" "r mod 64 \<le> 63"
      by (simp_all add: MaxRune_def)
    have b: "r div 262144 = 0 \<Longrightarrow> 16 \<le> (r div 4096) mod 64"
      using 5 div262144_0 by simp
    have c: "r div 262144 = 4 \<Longrightarrow> (r div 4096) mod 64 \<le> 15"
      using 5 div262144_4 by (simp add: MaxRune_def)
    have d: "r div 262144 = 0 \<Longrightarrow> r div 4096 \<le> 63"
    proof -
      assume "r div 262144 = 0"
      then have "r < 262144" by (simp add: div_eq_0_iff)
      then show ?thesis by simp
    qed
    from 5 have "EncodeRune r = [char_of (0xF0 + r div 262144), char_of (0x80 + (r div 4096) mod 64),
           char_of (0x80 + (r div 64) mod 64), char_of (0x80 + r mod 64)]"
      by (auto simp: EncodeRune_def MaxRune_def)
    with a b c d show ?thesis
      by (simp add: in_range_def Let_def)
  qed
qed

lemma wellformed_concat_EncodeRune: "wellformed_utf8 (concat (map (\<lambda>r. EncodeRune (f r)) rs))"
  by (induction rs) simp_all

lemma wellformed_coerce: "wellformed_utf8 (coerceToUTF8InterchangeValid s)"
  by (simp add: coerceToUTF8InterchangeValid_def wellformed_concat_EncodeRune comp_def)


lemma coerce_unfold:
  "coerceToUTF8InterchangeValid s =
    (if s = [] then []
     else EncodeRune (let r = fst (DecodeRuneInString s) in if controlAndNonCharacter r then RuneError else r)
          @ coerceToUTF8InterchangeValid (drop (snd (DecodeRuneInString s)) s))"
  by (subst coerceToUTF8InterchangeValid_def, subst range_string.simps)
     (simp add: coerceToUTF8InterchangeValid_def)

definition high_bytes :: "string \<Rightarrow> bool" where
  "high_bytes s = (\<forall>c\<in>set s. (0x80::nat) \<le> of_char c)"

lemma EncodeRune_high: "0x80 \<le> r \<Longrightarrow> high_bytes (EncodeRune r)"
proof -
  assume a: "0x80 \<le> r"
  have m: "r mod 64 \<le> 63" "(r div 64) mod 64 \<le> 63" "(r div 4096) mod 64 \<le> 63" by simp_all
  consider "r \<le> 0x7FF" | "0x7FF < r" "MaxRune < r \<or> (0xD800 \<le> r \<and> r \<le> 0xDFFF)"
    | "0x7FF < r" "r \<le> 0xFFFF" "\<not> (0xD800 \<le> r \<and> r \<le> 0xDFFF)"
    | "0xFFFF < r" "r \<le> MaxRune"
    unfolding MaxRune_def by linarith
  then show ?thesis
  proof cases
    case 1
    then have "r div 64 \<le> 31" by simp
    with 1 a m show ?thesis by (simp add: EncodeRune_def high_bytes_def)
  next
    case 2
    then have "EncodeRune r = EncodeRune3 RuneError" by (auto simp: EncodeRune_def)
    then show ?thesis by (simp add: EncodeRune3_def RuneError_def high_bytes_def)
  next
    case 3
    then have "EncodeRune r = EncodeRune3 r" by (auto simp: EncodeRune_def MaxRune_def)
    moreover from 3 have "r div 4096 \<le> 15" by simp
    ultimately show ?thesis using m by (simp add: EncodeRune3_def high_bytes_def)
  next
    case 4
    then have "EncodeRune r = [char_of (0xF0 + r div 262144), char_of (0x80 + (r div 4096) mod 64),
           char_of (0x80 + (r div 64) mod 64), char_of (0x80 + r mod 64)]"
      by (auto simp: EncodeRune_def MaxRune_def)
    moreover from 4 have "r div 262144 \<le> 4" by (simp add: MaxRune_def)
    ultimately show ?thesis using m by (simp add: high_bytes_def)
  qed
qed

lemma high_bytes_take:
  assumes "n \<le> length s" "n \<le> 4" "\<And>i. i < n \<Longrightarrow> 0x80 \<le> byte_at s i"
  shows "high_bytes (take n s)"
  unfolding high_bytes_def
proof
  fix c assume "c \<in> set (take n s)"
  then obtain i where "i < length (take n s)" "take n s ! i = c"
    by (auto simp: in_set_conv_nth)
  with assms show "(0x80::nat) \<le> of_char c"
    by (auto simp: byte_at_def)
qed

lemma first_bounds:
  "first b = Some (sz, lo, hi) \<Longrightarrow> 0xC2 \<le> b \<and> 0x80 \<le> lo \<and> hi \<le> 0xBF"
  unfolding first_def by (simp split: if_splits)

lemma first_2: "first b = Some (2, lo, hi) \<Longrightarrow> 0xC2 \<le> b \<and> b \<le> 0xDF"
  unfolding first_def by (simp split: if_splits)

lemma first_3: "first b = Some (3, lo, hi) \<Longrightarrow> 0xE0 \<le> b \<and> b \<le> 0xEF \<and> (b = 0xE0 \<longrightarrow> lo = 0xA0)"
  unfolding first_def by (simp split: if_splits)

lemma first_4: "first b = Some (4, lo, hi) \<Longrightarrow> 0xF0 \<le> b \<and> b \<le> 0xF4 \<and> (b = 0xF0 \<longrightarrow> lo = 0x90)"
  unfolding first_def by (simp split: if_splits)


lemma mod_between: "k * n \<le> b \<Longrightarrow> b < k * n + n \<Longrightarrow> b mod n = b - k * (n::nat)"
proof -
  assume a: "k * n \<le> b" "b < k * n + n"
  then have "b div n = k" by (intro div_nat_eqI) (simp_all add: mult.commute)
  then show ?thesis by (simp add: modulo_nat_def mult.commute)
qed

lemma high_bytes_take1: "s \<noteq> [] \<Longrightarrow> 0x80 \<le> byte_at s 0 \<Longrightarrow> high_bytes (take 1 s)"
  by (cases s) (simp_all add: high_bytes_def byte_at_def)

lemma Decode_high:
  assumes "s \<noteq> []" "0x80 \<le> byte_at s 0"
  shows "0x80 \<le> fst (DecodeRuneInString s) \<and> high_bytes (take (snd (DecodeRuneInString s)) s)"
proof -
  let ?s0 = "byte_at s 0"
  have err: "DecodeRuneInString s = (RuneError, 1) \<Longrightarrow> ?thesis"
    using assms high_bytes_take1 [of s] by (simp add: RuneError_def)
  show ?thesis
  proof (cases "first ?s0")
    case None
    with assms have "DecodeRuneInString s = (RuneError, 1)"
      by (simp add: DecodeRuneInString_def Let_def)
    then show ?thesis by (rule err)
  next
    case (Some t)
    obtain sz lo hi where t: "t = (sz, lo, hi)" by (cases t)
    note f = Some [unfolded t]
    from first_size [OF f] consider "sz = 2" | "sz = 3" | "sz = 4" by linarith
    then show ?thesis
    proof cases
      case 1
      show ?thesis
      proof (cases "length s < 2 \<or> byte_at s 1 < lo \<or> hi < byte_at s 1")
        case True
        with assms f 1 have "DecodeRuneInString s = (RuneError, 1)"
          by (auto simp: DecodeRuneInString_def Let_def)
        then show ?thesis by (rule err)
      next
        case False
        with assms f 1 have d: "DecodeRuneInString s = ((?s0 mod 32) * 64 + byte_at s 1 mod 64, 2)"
          by (auto simp: DecodeRuneInString_def Let_def)
        from first_2 [OF f [unfolded 1]] have "2 \<le> ?s0 mod 32"
          using mod_between [of 6 32 ?s0] by auto
        then have r: "0x80 \<le> (?s0 mod 32) * 64 + byte_at s 1 mod 64" by simp
        from first_bounds [OF f] False have "0x80 \<le> byte_at s 1" by simp
        then have "\<And>i. i < 2 \<Longrightarrow> 0x80 \<le> byte_at s i"
          using assms by (auto simp add: less_Suc_eq numeral_2_eq_2)
        moreover from False have "2 \<le> length s" by simp
        ultimately have "high_bytes (take 2 s)"
          by (intro high_bytes_take) simp_all
        with d r show ?thesis by simp
      qed
    next
      case 2
      show ?thesis
      proof (cases "length s < 3 \<or> byte_at s 1 < lo \<or> hi < byte_at s 1 \<or> \<not> cont (byte_at s 2)")
        case True
        with assms f 2 have "DecodeRuneInString s = (RuneError, 1)"
          by (auto simp: DecodeRuneInString_def Let_def)
        then show ?thesis by (rule err)
      next
        case False
        with assms f 2 have d: "DecodeRuneInString s =
            ((?s0 mod 16) * 4096 + (byte_at s 1 mod 64) * 64 + byte_at s 2 mod 64, 3)"
          by (auto simp: DecodeRuneInString_def Let_def)
        from first_bounds [OF f] False have b1: "0x80 \<le> byte_at s 1" "byte_at s 1 \<le> 0xBF" by simp_all
        have "1 \<le> ?s0 mod 16 \<or> 32 \<le> byte_at s 1 mod 64"
        proof (cases "?s0 = 0xE0")
          case True
          with first_3 [OF f [unfolded 2]] have "lo = 0xA0" by simp
          with False b1 have "0xA0 \<le> byte_at s 1" "byte_at s 1 \<le> 0xBF" by simp_all
          then have "32 \<le> byte_at s 1 mod 64"
            using mod_between [of 2 64 "byte_at s 1"] by auto
          then show ?thesis ..
        next
          case False
          with first_3 [OF f [unfolded 2]] have "0xE1 \<le> ?s0" "?s0 \<le> 0xEF" by simp_all
          then have "1 \<le> ?s0 mod 16"
            using mod_between [of 14 16 ?s0] by auto
          then show ?thesis ..
        qed
        then have r: "0x80 \<le> (?s0 mod 16) * 4096 + (byte_at s 1 mod 64) * 64 + byte_at s 2 mod 64"
          by auto
        from False have "0x80 \<le> byte_at s 2" by (simp add: cont_def)
        then have "\<And>i. i < 3 \<Longrightarrow> 0x80 \<le> byte_at s i"
          using assms b1 by (auto simp add: less_Suc_eq numeral_3_eq_3 numeral_2_eq_2)
        moreover from False have "3 \<le> length s" by simp
        ultimately have "high_bytes (take 3 s)"
          by (intro high_bytes_take) simp_all
        with d r show ?thesis by simp
      qed
    next
      case 3
      show ?thesis
      proof (cases "length s < 4 \<or> byte_at s 1 < lo \<or> hi < byte_at s 1 \<or> \<not> cont (byte_at s 2)
                    \<or> \<not> cont (byte_at s 3)")
        case True
        with assms f 3 have "DecodeRuneInString s = (RuneError, 1)"
          by (auto simp: DecodeRuneInString_def Let_def)
        then show ?thesis by (rule err)
      next
        case False
        with assms f 3 have d: "DecodeRuneInString s =
            ((?s0 mod 8) * 262144 + (byte_at s 1 mod 64) * 4096 + (byte_at s 2 mod 64) * 64
              + byte_at s 3 mod 64, 4)"
          by (auto simp: DecodeRuneInString_def Let_def)
        from first_bounds [OF f] False have b1: "0x80 \<le> byte_at s 1" "byte_at s 1 \<le> 0xBF" by simp_all
        have "1 \<le> ?s0 mod 8 \<or> 16 \<le> byte_at s 1 mod 64"
        proof (cases "?s0 = 0xF0")
          case True
          with first_4 [OF f [unfolded 3]] have "lo = 0x90" by simp
          with False b1 have "0x90 \<le> byte_at s 1" "byte_at s 1 \<le> 0xBF" by simp_all
          then have "16 \<le> byte_at s 1 mod 64"
            using mod_between [of 2 64 "byte_at s 1"] by auto
          then show ?thesis ..
        next
          case False
          with first_4 [OF f [unfolded 3]] have "0xF1 \<le> ?s0" "?s0 \<le> 0xF4" by simp_all
          then have "1 \<le> ?s0 mod 8"
            using mod_between [of 30 8 ?s0] by auto
          then show ?thesis ..
        qed
        then have r: "0x80 \<le> (?s0 mod 8) * 262144 + (byte_at s 1 mod 64) * 4096
            + (byte_at s 2 mod 64) * 64 + byte_at s 3 mod 64"
          by auto
        from False have "0x80 \<le> byte_at s 2" "0x80 \<le> byte_at s 3" by (simp_all add: cont_def)
        then have "\<And>i. i < 4 \<Longrightarrow> 0x80 \<le> byte_at s i"
          using assms b1 by (auto simp add: less_Suc_eq eval_nat_numeral)
        moreover from False have "4 \<le> length s" by simp
        ultimately have "high_bytes (take 4 s)"
          by (intro high_bytes_take) simp_all
        with d r show ?thesis by simp
      qed
    qed
  qed
qed


lemma filter_high_bytes:
  assumes "\<And>c. P c \<Longrightarrow> of_char c < (0x80::nat)" "high_bytes t"
  shows "filter P t = []"
proof -
  have "\<not> P c" if "c \<in> set t" for c
    using assms(1) [of c] assms(2) that by (auto simp: high_bytes_def)
  then show ?thesis by (simp add: filter_empty_conv)
qed

lemma coerce_step_filter:
  assumes P: "\<And>c. P c \<Longrightarrow> of_char c < (0x80::nat) \<and> \<not> controlChar (of_char c)"
    and s: "s \<noteq> []"
  shows "filter P (EncodeRune (let r = fst (DecodeRuneInString s)
                               in if controlAndNonCharacter r then RuneError else r))
         = filter P (take (snd (DecodeRuneInString s)) s)"
proof (cases "byte_at s 0 < 0x80")
  case True
  obtain c t where ct: "s = c # t" using s by (cases s) auto
  from True s have d: "DecodeRuneInString s = (byte_at s 0, 1)"
    by (simp add: DecodeRuneInString_def Let_def)
  from True have nc: "\<not> Noncharacter_Code_Point (byte_at s 0)"
    by (simp add: Noncharacter_Code_Point_def)
  show ?thesis
  proof (cases "controlChar (byte_at s 0)")
    case True
    then have "\<not> P c" using P [of c] ct by (auto simp: byte_at_def)
    moreover have "filter P (EncodeRune RuneError) = []"
      using P by (intro filter_high_bytes EncodeRune_high) (auto simp: RuneError_def)
    ultimately show ?thesis using True d ct
      by (simp add: controlAndNonCharacter_def)
  next
    case False
    with nc \<open>byte_at s 0 < 0x80\<close> d ct show ?thesis
      by (simp add: controlAndNonCharacter_def EncodeRune_def byte_at_def)
  qed
next
  case False
  then have h: "0x80 \<le> byte_at s 0" by simp
  let ?r = "fst (DecodeRuneInString s)"
  from Decode_high [OF s h]
  have r: "0x80 \<le> ?r" and t: "high_bytes (take (snd (DecodeRuneInString s)) s)" by simp_all
  have "0x80 \<le> (if controlAndNonCharacter ?r then RuneError else ?r)"
    using r by (simp add: RuneError_def)
  then have "high_bytes (EncodeRune (if controlAndNonCharacter ?r then RuneError else ?r))"
    by (rule EncodeRune_high)
  with t P show ?thesis
    by (simp add: Let_def filter_high_bytes)
qed

lemma filter_coerce:
  assumes P: "\<And>c. P c \<Longrightarrow> of_char c < (0x80::nat) \<and> \<not> controlChar (of_char c)"
  shows "filter P (coerceToUTF8InterchangeValid s) = filter P s"
proof (induction s rule: range_string.induct)
  case (1 s)
  show ?case
  proof (cases "s = []")
    case True
    then show ?thesis by (subst coerce_unfold) simp
  next
    case False
    let ?n = "snd (DecodeRuneInString s)"
    have "filter P s = filter P (take ?n s) @ filter P (drop ?n s)"
      by (metis append_take_drop_id filter_append)
    with False 1 [OF False] coerce_step_filter [of P s, OF P False] show ?thesis
      by (subst coerce_unfold) simp
  qed
qed


section \<open>Concatenation\<close>

lemma JSONConcat_loop_eq: "JSONConcat_loop b jsons = b @ concat (map String jsons)"
  by (induction jsons arbitrary: b) simp_all

lemma String_JSONConcat: "String (JSONConcat jsons) = concat (map String jsons)"
  by (simp add: JSONConcat_def String_def JSONConcat_loop_eq)

text \<open>
  C5: the text of a concatenation is the texts of its arguments, in order, with
  nothing between them; no argument gives the empty text, and the empty object followed
  by the empty array gives \<^verbatim>\<open>{}[]\<close>.
\<close>

theorem JSONConcat_is_concatenation:
  "String (JSONConcat vs) = concat (map String vs)
   \<and> String (JSONConcat []) = []
   \<and> String (JSONConcat [EmptyObjectJSON, EmptyArrayJSON]) = ''{}[]''"
  by (simp add: String_JSONConcat) (simp add: String_def EmptyObjectJSON_def EmptyArrayJSON_def)

text \<open>
  C10: concatenation is associative, a single argument is returned with its text
  unchanged, and the zero value is a left and a right identity.
\<close>

theorem JSONConcat_assoc_identity:
  "String (JSONConcat [JSONConcat [a, b], c]) = String (JSONConcat [a, JSONConcat [b, c]])
   \<and> String (JSONConcat [a]) = String a
   \<and> String (JSONConcat [zeroJSON, a]) = String a
   \<and> String (JSONConcat [a, zeroJSON]) = String a"
  by (simp add: String_JSONConcat) (simp add: String_def zeroJSON_def)

section \<open>Constants and the accessor\<close>

text \<open>
  C6: the constructor from a constant wraps the text as it is, and the accessor
  returns the wrapped text as it is.
\<close>

theorem JSONFromConstant_verbatim:
  "String (JSONFromConstant c) = c \<and> String \<lparr>str = s\<rparr> = s \<and> str (JSONFromConstant c) = c"
  by (simp add: String_def JSONFromConstant_def)

text \<open>
  C7: the two empty literals are fixed values with the texts \<^verbatim>\<open>{}\<close> and
  \<^verbatim>\<open>[]\<close>.
\<close>

theorem empty_literals:
  "String EmptyObjectJSON = ''{}'' \<and> String EmptyArrayJSON = ''[]''"
  by (simp add: String_def EmptyObjectJSON_def EmptyArrayJSON_def)

section \<open>The normalising constructor\<close>

text \<open>
  C3: the text of \<^verbatim>\<open>JSONEscaped text\<close> is the coercion of \<open>text\<close> and nothing
  else: no character is escaped.  Every occurrence of \<^verbatim>\<open>&\<close>, \<^verbatim>\<open><\<close>,
  \<^verbatim>\<open>>\<close>, of a quote or of a backslash in the input is in the output, in the same
  order, and the output has no other occurrence of them.
\<close>

theorem JSONEscaped_escapes_nothing:
  "String (JSONEscaped text) = coerceToUTF8InterchangeValid text
   \<and> filter escapable (String (JSONEscaped text)) = filter escapable text"
proof -
  have "of_char c < (0x80::nat) \<and> \<not> controlChar (of_char c)" if "escapable c" for c
    using that by (auto simp: escapable_def controlChar_def)
  then have "filter escapable (coerceToUTF8InterchangeValid text) = filter escapable text"
    by (rule filter_coerce)
  then show ?thesis by (simp add: String_def JSONEscaped_def)
qed

text \<open>
  C4: \<^verbatim>\<open>JSONEscaped\<close> is a total function (the loop over the input terminates
  and no branch fails), and the text of its result is well-formed UTF-8 for every
  input: no ill-formed sequence and no encoded surrogate.
\<close>

theorem JSONEscaped_wellformed:
  "wellformed_utf8 (String (JSONEscaped text))"
  by (simp add: String_def JSONEscaped_def wellformed_coerce)

end
